theory Spec2Isabelle
  imports Main "HOL-Library.FSet"
begin

unbundle bit_operations_syntax

section \<open>The hash boundary: \<open>hashData\<close>\<close>

text \<open>
  \<open>services/crypto.ts\<close> defines \<open>hashData(data) = SHA256(data).toString()\<close>, where
  \<open>SHA256\<close> is the crypto-js library function: the SHA-256 digest (FIPS 180-4) of the
  UTF-8 encoding of \<open>data\<close>, printed as 64 lowercase hexadecimal digits.  The library is
  not part of the repository; its function is written out here from the standard, on
  32-bit values represented as \<open>int\<close> with the wrap-around \<open>mod 2 ^ 32\<close> explicit
  (the round constants \<open>K256\<close> and the initial hash value \<open>H0\<close> of the standard
  are written in decimal).
  A \<open>string\<close> stands for the byte sequence of the text (its UTF-8 encoding), so that
  \<open>@\<close> is the concatenation \<open>+\<close> of the source.
\<close>

type_synonym u32 = int

definition rotr :: "nat \<Rightarrow> u32 \<Rightarrow> u32" where
  "rotr n x = (x div 2 ^ n) OR ((x * 2 ^ (32 - n)) mod 4294967296)"

definition Ch :: "u32 \<Rightarrow> u32 \<Rightarrow> u32 \<Rightarrow> u32" where
  "Ch x y z = (x AND y) XOR ((x XOR 4294967295) AND z)"

definition Maj :: "u32 \<Rightarrow> u32 \<Rightarrow> u32 \<Rightarrow> u32" where
  "Maj x y z = (x AND y) XOR (x AND z) XOR (y AND z)"

definition Sig0 :: "u32 \<Rightarrow> u32" where
  "Sig0 x = rotr 2 x XOR rotr 13 x XOR rotr 22 x"

definition Sig1 :: "u32 \<Rightarrow> u32" where
  "Sig1 x = rotr 6 x XOR rotr 11 x XOR rotr 25 x"

definition sig0 :: "u32 \<Rightarrow> u32" where
  "sig0 x = rotr 7 x XOR rotr 18 x XOR (x div 2 ^ 3)"

definition sig1 :: "u32 \<Rightarrow> u32" where
  "sig1 x = rotr 17 x XOR rotr 19 x XOR (x div 2 ^ 10)"

definition K256 :: "u32 list" where
  "K256 =
    [1116352408, 1899447441, 3049323471, 3921009573, 961987163, 1508970993,
     2453635748, 2870763221, 3624381080, 310598401, 607225278, 1426881987,
     1925078388, 2162078206, 2614888103, 3248222580, 3835390401, 4022224774,
     264347078, 604807628, 770255983, 1249150122, 1555081692, 1996064986,
     2554220882, 2821834349, 2952996808, 3210313671, 3336571891, 3584528711,
     113926993, 338241895, 666307205, 773529912, 1294757372, 1396182291,
     1695183700, 1986661051, 2177026350, 2456956037, 2730485921, 2820302411,
     3259730800, 3345764771, 3516065817, 3600352804, 4094571909, 275423344,
     430227734, 506948616, 659060556, 883997877, 958139571, 1322822218,
     1537002063, 1747873779, 1955562222, 2024104815, 2227730452, 2361852424,
     2428436474, 2756734187, 3204031479, 3329325298]"

text \<open>The sixteen most recent words of the message schedule, and the eight working
  variables \<open>a \<dots> h\<close>.\<close>

type_synonym window = "u32 \<times> u32 \<times> u32 \<times> u32 \<times> u32 \<times> u32 \<times> u32 \<times> u32 \<times> u32 \<times> u32 \<times> u32 \<times> u32 \<times> u32 \<times> u32 \<times> u32 \<times> u32"
type_synonym hstate = "u32 \<times> u32 \<times> u32 \<times> u32 \<times> u32 \<times> u32 \<times> u32 \<times> u32"

fun next_w :: "window \<Rightarrow> window" where
  "next_w (w0, w1, w2, w3, w4, w5, w6, w7, w8, w9, w10, w11, w12, w13, w14, w15) =
     (w1, w2, w3, w4, w5, w6, w7, w8, w9, w10, w11, w12, w13, w14, w15,
      (sig1 w14 + w9 + sig0 w1 + w0) mod 4294967296)"

fun T1 :: "u32 \<Rightarrow> u32 \<Rightarrow> hstate \<Rightarrow> u32" where
  "T1 k w (a, b, c, d, e, f, g, h) = (h + Sig1 e + Ch e f g + k + w) mod 4294967296"

fun T2 :: "hstate \<Rightarrow> u32" where
  "T2 (a, b, c, d, e, f, g, h) = (Sig0 a + Maj a b c) mod 4294967296"

fun shift_state :: "u32 \<Rightarrow> u32 \<Rightarrow> hstate \<Rightarrow> hstate" where
  "shift_state t1 t2 (a, b, c, d, e, f, g, h) =
     ((t1 + t2) mod 4294967296, a, b, c, (d + t1) mod 4294967296, e, f, g)"

fun rounds :: "u32 list \<Rightarrow> window \<Rightarrow> hstate \<Rightarrow> hstate" where
  "rounds [] W st = st"
| "rounds (k # ks) W st = rounds ks (next_w W) (shift_state (T1 k (fst W) st) (T2 st) st)"

definition H0 :: hstate where
  "H0 = (1779033703, 3144134277, 1013904242, 2773480762,
         1359893119, 2600822924, 528734635, 1541459225)"

fun add_state :: "hstate \<Rightarrow> hstate \<Rightarrow> hstate" where
  "add_state (a, b, c, d, e, f, g, h) (a', b', c', d', e', f', g', h') =
     ((a + a') mod 4294967296, (b + b') mod 4294967296, (c + c') mod 4294967296,
      (d + d') mod 4294967296, (e + e') mod 4294967296, (f + f') mod 4294967296,
      (g + g') mod 4294967296, (h + h') mod 4294967296)"

fun be32 :: "int list \<Rightarrow> u32 list" where
  "be32 (a # b # c # d # r) = (((a * 256 + b) * 256 + c) * 256 + d) # be32 r"
| "be32 _ = []"

definition to_window :: "u32 list \<Rightarrow> window" where
  "to_window ws = (ws ! 0, ws ! 1, ws ! 2, ws ! 3, ws ! 4, ws ! 5, ws ! 6, ws ! 7,
                   ws ! 8, ws ! 9, ws ! 10, ws ! 11, ws ! 12, ws ! 13, ws ! 14, ws ! 15)"

definition compress :: "hstate \<Rightarrow> u32 list \<Rightarrow> hstate" where
  "compress st ws = add_state st (rounds K256 (to_window ws) st)"

function chunks :: "'a list \<Rightarrow> 'a list list" where
  "chunks xs = (if length xs < 16 then [] else take 16 xs # chunks (drop 16 xs))"
  by pat_completeness auto
termination
  by (relation "measure length") auto

declare chunks.simps [simp del]

definition pad :: "int list \<Rightarrow> int list" where
  "pad m = m @ [128] @ replicate ((119 - length m mod 64) mod 64) 0
             @ map (\<lambda>i. (int (8 * length m) div 256 ^ (7 - i)) mod 256) [0..<8]"

definition hexdigit :: "int \<Rightarrow> char" where
  "hexdigit n = ''0123456789abcdef'' ! nat n"

definition hex32 :: "u32 \<Rightarrow> string" where
  "hex32 w = map (\<lambda>i. hexdigit ((w div 16 ^ (7 - i)) mod 16)) [0..<8]"

fun hex_state :: "hstate \<Rightarrow> string" where
  "hex_state (a, b, c, d, e, f, g, h) =
     hex32 a @ hex32 b @ hex32 c @ hex32 d @ hex32 e @ hex32 f @ hex32 g @ hex32 h"

definition hashData :: "string \<Rightarrow> string" where
  "hashData s = hex_state (foldl compress H0 (chunks (be32 (pad (map of_char s)))))"


section \<open>Data model (\<open>types.ts\<close>)\<close>

text \<open>
  The field \<open>id\<close> of a transaction is \<open>id_tx\<close> here, and its \<open>timestamp\<close> is
  \<open>timestamp_tx\<close> (the block header has a \<open>timestamp\<close> of its own).  The numbers of
  the source are the integers it stores in these fields: \<open>Date.now()\<close>,
  \<open>chain.length\<close> and \<open>Math.floor(Math.random() * 100000)\<close>.
\<close>

record Transaction =
  id_tx :: string
  productName :: string
  details :: string
  timestamp_tx :: int
  signerPublicKey :: string
  signature :: string
  valid :: "bool option"

record BlockHeader =
  index :: int
  previousHash :: string
  timestamp :: int
  merkleRoot :: string
  nonce :: int

record Block =
  header :: BlockHeader
  transactions :: "Transaction list"
  hash :: string

datatype position = left | right

text \<open>\<open>MerkleProofStep\<close>: the field \<open>hash\<close> of a step is \<open>hash_step\<close> here.\<close>

record MerkleProofStep =
  hash_step :: string
  position :: position

text \<open>The class \<open>Blockchain\<close>: its three fields; \<open>revokedKeys\<close> is a \<open>Set<string>\<close>.\<close>

record Blockchain =
  chain :: "Block list"
  pendingTransactions :: "Transaction list"
  revokedKeys :: "string fset"

datatype error = TypeError


section \<open>Numbers in template literals\<close>

text \<open>
  \<open>`${n}`\<close> prints an integer in decimal (JavaScript switches to exponent notation
  only from \<open>10 ^ 21\<close> on, far beyond any index, nonce or millisecond clock value).
\<close>

function showNat :: "nat \<Rightarrow> string" where
  "showNat n = (if n < 10 then [''0123456789'' ! n]
                else showNat (n div 10) @ [''0123456789'' ! (n mod 10)])"
  by pat_completeness auto
termination
  by (relation "measure (\<lambda>n. n)") auto

declare showNat.simps [simp del]

definition numberToString :: "int \<Rightarrow> string" where
  "numberToString i = (if i < 0 then ''-'' @ showNat (nat (- i)) else showNat (nat i))"


section \<open>Merkle tree (\<open>services/blockchain.ts\<close>)\<close>

text \<open>
  The inner \<open>for\<close> loop that builds \<open>nextLevel\<close> from \<open>hashes\<close>, two positions at a
  time.  \<open>getMerkleRoot\<close> and \<open>getMerkleProof\<close> contain the same loop.
\<close>

function nextLevelLoop :: "string list \<Rightarrow> nat \<Rightarrow> string list \<Rightarrow> string list" where
  "nextLevelLoop hashes i acc =
     (if i < length hashes then
        (if i + 1 < length hashes
         then nextLevelLoop hashes (i + 2) (acc @ [hashData (hashes ! i @ hashes ! (i + 1))])
         else nextLevelLoop hashes (i + 2) (acc @ [hashData (hashes ! i @ hashes ! i)]))
      else acc)"
  by pat_completeness auto
termination
  by (relation "measure (\<lambda>(hashes, i, acc). length hashes - i)") auto

declare nextLevelLoop.simps [simp del]

definition nextLevel :: "string list \<Rightarrow> string list" where
  "nextLevel hashes = nextLevelLoop hashes 0 []"

text \<open>The same pairing by structural recursion; \<open>nextLevel_pairUp\<close> shows that the loop
  computes it.\<close>

fun pairUp :: "string list \<Rightarrow> string list" where
  "pairUp (a # b # r) = hashData (a @ b) # pairUp r"
| "pairUp [a] = [hashData (a @ a)]"
| "pairUp [] = []"

lemma nextLevelLoop_pairUp:
  "i \<le> length hashes \<Longrightarrow> nextLevelLoop hashes i acc = acc @ pairUp (drop i hashes)"
proof (induction hashes i acc rule: nextLevelLoop.induct)
  case (1 hashes i acc)
  show ?case
  proof (cases "i < length hashes")
    case False
    with "1.prems" show ?thesis by (subst nextLevelLoop.simps) simp
  next
    case inside: True
    show ?thesis
    proof (cases "i + 1 < length hashes")
      case True
      then have d: "drop i hashes = hashes ! i # hashes ! (i + 1) # drop (i + 2) hashes"
        by (metis Cons_nth_drop_Suc Suc_eq_plus1 add_2_eq_Suc' inside)
      from True have "i + 2 \<le> length hashes" by simp
      with "1.IH"(1) [OF inside True] d inside True show ?thesis
        by (subst nextLevelLoop.simps) simp
    next
      case False
      with inside have l: "length hashes = i + 1" by simp
      then have d: "drop i hashes = [hashes ! i]"
        by (metis Cons_nth_drop_Suc Suc_eq_plus1 drop_all inside le_refl)
      have rest: "nextLevelLoop hashes (i + 2) (acc @ [hashData (hashes ! i @ hashes ! i)])
                  = acc @ [hashData (hashes ! i @ hashes ! i)]"
        using l by (subst nextLevelLoop.simps) simp
      from inside False d rest show ?thesis
        by (subst nextLevelLoop.simps) simp
    qed
  qed
qed

lemma nextLevel_pairUp: "nextLevel hashes = pairUp hashes"
  by (simp add: nextLevel_def nextLevelLoop_pairUp)

lemma length_pairUp: "length (pairUp hs) = (length hs + 1) div 2"
  by (induction hs rule: pairUp.induct) simp_all

lemma length_nextLevel: "length (nextLevel hs) = (length hs + 1) div 2"
  by (simp add: nextLevel_pairUp length_pairUp)

text \<open>The \<open>while (hashes.length > 1)\<close> loop of \<open>getMerkleRoot\<close>.\<close>

function rootLoop :: "string list \<Rightarrow> string list" where
  "rootLoop hashes = (if length hashes > 1 then rootLoop (nextLevel hashes) else hashes)"
  by pat_completeness auto
termination
  by (relation "measure length") (auto simp: length_nextLevel)

declare rootLoop.simps [simp del]

text \<open>
  \<open>getMerkleRoot\<close>.  The final \<open>hashes[0]\<close> is read from a list that has exactly one
  element (\<open>length_rootLoop\<close>), the empty input having returned before the loop.
\<close>

definition getMerkleRoot :: "Transaction list \<Rightarrow> string" where
  "getMerkleRoot txs =
     (if length txs = 0 then hashData ''''
      else rootLoop (map id_tx txs) ! 0)"

text \<open>\<open>Array.prototype.findIndex\<close>: the first position that satisfies the predicate,
  or \<open>-1\<close>.\<close>

fun findIndex :: "('a \<Rightarrow> bool) \<Rightarrow> 'a list \<Rightarrow> int" where
  "findIndex P [] = - 1"
| "findIndex P (x # xs) =
     (if P x then 0 else (let i = findIndex P xs in if i = - 1 then - 1 else i + 1))"

text \<open>The \<open>while\<close> loop of \<open>getMerkleProof\<close>, on \<open>hashes\<close>, \<open>index\<close> and \<open>proof\<close>.\<close>

function proofLoop ::
  "string list \<Rightarrow> nat \<Rightarrow> MerkleProofStep list \<Rightarrow> MerkleProofStep list" where
  "proofLoop hashes idx steps =
     (if length hashes > 1 then
        proofLoop (nextLevel hashes) (idx div 2)
          (steps @
            [if idx mod 2 = 0 then
               (if idx + 1 < length hashes
                then \<lparr>hash_step = hashes ! (idx + 1), position = right\<rparr>
                else \<lparr>hash_step = hashes ! idx, position = right\<rparr>)
             else \<lparr>hash_step = hashes ! (idx - 1), position = left\<rparr>])
      else steps)"
  by pat_completeness auto
termination
  by (relation "measure (\<lambda>(hashes, idx, steps). length hashes)") (auto simp: length_nextLevel)

declare proofLoop.simps [simp del]

definition getMerkleProof :: "Transaction list \<Rightarrow> string \<Rightarrow> MerkleProofStep list" where
  "getMerkleProof txs targetTxId =
     (let hashes = map id_tx txs;
          idx = findIndex (\<lambda>h. h = targetTxId) hashes
      in if idx = - 1 then [] else proofLoop hashes (nat idx) [])"

text \<open>The \<open>for (const step of proof)\<close> loop of \<open>verifyMerkleProof\<close>.\<close>

fun verifyLoop :: "string \<Rightarrow> MerkleProofStep list \<Rightarrow> string" where
  "verifyLoop currentHash [] = currentHash"
| "verifyLoop currentHash (step # rest) =
     verifyLoop
       (if position step = right then hashData (currentHash @ hash_step step)
        else hashData (hash_step step @ currentHash))
       rest"

definition verifyMerkleProof :: "string \<Rightarrow> MerkleProofStep list \<Rightarrow> string \<Rightarrow> bool" where
  "verifyMerkleProof leafHash steps root = (verifyLoop leafHash steps = root)"


section \<open>The ledger (\<open>class Blockchain\<close>)\<close>

text \<open>
  The clock \<open>Date.now()\<close> and the random nonce are inputs of the operations that read
  them.  The methods mutate the object; here they return the new state.
\<close>

definition createGenesisBlock :: "int \<Rightarrow> Block" where
  "createGenesisBlock now =
     \<lparr>header = \<lparr>index = 0, previousHash = ''0'', timestamp = now,
                merkleRoot = hashData ''Genesis Block'', nonce = 0\<rparr>,
      transactions = [],
      hash = hashData (''00'' @ numberToString now @ hashData ''Genesis Block'' @ ''0'')\<rparr>"

definition newBlockchain :: "int \<Rightarrow> Blockchain" where
  "newBlockchain now =
     \<lparr>chain = [createGenesisBlock now], pendingTransactions = [], revokedKeys = {||}\<rparr>"

text \<open>\<open>getLatestBlock\<close>: \<open>this.chain[this.chain.length - 1]\<close>, which is \<open>undefined\<close>
  (\<open>None\<close>) on an empty array.\<close>

definition getLatestBlock :: "Blockchain \<Rightarrow> Block option" where
  "getLatestBlock L = (if chain L = [] then None else Some (chain L ! (length (chain L) - 1)))"

definition addTransaction :: "Transaction \<Rightarrow> Blockchain \<Rightarrow> bool \<times> Blockchain" where
  "addTransaction tx L =
     (if signerPublicKey tx |\<in>| revokedKeys L then (False, L)
      else (True, L\<lparr>pendingTransactions := pendingTransactions L @ [tx]\<rparr>))"

definition calculateBlockHash :: "Block \<Rightarrow> string" where
  "calculateBlockHash block =
     hashData (numberToString (index (header block)) @ previousHash (header block)
               @ numberToString (timestamp (header block)) @ merkleRoot (header block)
               @ numberToString (nonce (header block)))"

text \<open>
  \<open>minePendingTransactions\<close>: reading \<open>previousBlock.hash\<close> throws a \<open>TypeError\<close> when
  \<open>getLatestBlock\<close> returned \<open>undefined\<close>.  The result is the block and the new state.
\<close>

definition minePendingTransactions ::
  "int \<Rightarrow> int \<Rightarrow> Blockchain \<Rightarrow> error + (Block \<times> Blockchain)" where
  "minePendingTransactions now rnd L =
     (case getLatestBlock L of
        None \<Rightarrow> Inl TypeError
      | Some previousBlock \<Rightarrow>
          (let txs = pendingTransactions L;
               block0 = \<lparr>header = \<lparr>index = int (length (chain L)),
                                    previousHash = hash previousBlock,
                                    timestamp = now,
                                    merkleRoot = getMerkleRoot txs,
                                    nonce = rnd\<rparr>,
                         transactions = txs,
                         hash = ''''\<rparr>;
               block = block0\<lparr>hash := calculateBlockHash block0\<rparr>
           in Inr (block, L\<lparr>chain := chain L @ [block], pendingTransactions := []\<rparr>)))"

text \<open>The loop of \<open>isChainValid\<close>, from \<open>i\<close> on.\<close>

function validLoop :: "Block list \<Rightarrow> nat \<Rightarrow> bool" where
  "validLoop blocks i =
     (if i < length blocks then
        (let current = blocks ! i; previous = blocks ! (i - 1)
         in if hash current \<noteq> calculateBlockHash current then False
            else if previousHash (header current) \<noteq> hash previous then False
            else if merkleRoot (header current) \<noteq> getMerkleRoot (transactions current) then False
            else validLoop blocks (i + 1))
      else True)"
  by pat_completeness auto
termination
  by (relation "measure (\<lambda>(blocks, i). length blocks - i)") auto

declare validLoop.simps [simp del]

definition isChainValid :: "Blockchain \<Rightarrow> bool" where
  "isChainValid L = validLoop (chain L) 1"

definition revokeKey :: "string \<Rightarrow> Blockchain \<Rightarrow> Blockchain" where
  "revokeKey publicKey L = L\<lparr>revokedKeys := finsert publicKey (revokedKeys L)\<rparr>"

text \<open>
  Reachable states: the constructor followed by any sequence of method calls.
  \<open>Mine now rnd\<close> carries the clock value and the random nonce of that call.
\<close>

datatype call = AddTransaction Transaction | Mine int int | RevokeKey string

fun step :: "call \<Rightarrow> Blockchain \<Rightarrow> error + Blockchain" where
  "step (AddTransaction tx) L = Inr (snd (addTransaction tx L))"
| "step (Mine now rnd) L =
     (case minePendingTransactions now rnd L of Inl e \<Rightarrow> Inl e | Inr (b, L') \<Rightarrow> Inr L')"
| "step (RevokeKey k) L = Inr (revokeKey k L)"

fun run :: "call list \<Rightarrow> Blockchain \<Rightarrow> error + Blockchain" where
  "run [] L = Inr L"
| "run (c # cs) L = (case step c L of Inl e \<Rightarrow> Inl e | Inr L' \<Rightarrow> run cs L')"

text \<open>Example data for the instances below.\<close>

definition exampleTx :: "string \<Rightarrow> string \<Rightarrow> Transaction" where
  "exampleTx i k =
     \<lparr>id_tx = i, productName = ''Coffee'', details = ''Carbon Footprint: 5kg'',
      timestamp_tx = 1700000000000, signerPublicKey = k, signature = '''', valid = None\<rparr>"


text \<open>A run of the ledger: a key is revoked, one transaction is accepted, one by the
  revoked signer is rejected, and a block is mined.\<close>

definition exampleCalls :: "call list" where
  "exampleCalls =
     [RevokeKey ''bad'',
      AddTransaction (exampleTx ''a'' ''k''),
      AddTransaction (exampleTx ''b'' ''bad''),
      Mine 1700000000060 4242]"

definition exampleLedger :: Blockchain where
  "exampleLedger =
     (case run exampleCalls (newBlockchain 1700000000000) of
        Inr L \<Rightarrow> L
      | Inl e \<Rightarrow> newBlockchain 1700000000000)"


section \<open>Properties of the Merkle tree\<close>

lemma nextLevel_nonempty: "hs \<noteq> [] \<Longrightarrow> nextLevel hs \<noteq> []"
proof -
  assume "hs \<noteq> []"
  then have "0 < length hs" by simp
  then have "0 < length (nextLevel hs)" by (simp add: length_nextLevel)
  then show ?thesis by auto
qed

lemma length_rootLoop: "hs \<noteq> [] \<Longrightarrow> length (rootLoop hs) = 1"
proof (induction hs rule: rootLoop.induct)
  case (1 hashes)
  show ?case
  proof (cases "length hashes > 1")
    case True
    with "1.IH" "1.prems" nextLevel_nonempty show ?thesis
      by (subst rootLoop.simps) simp
  next
    case False
    with "1.prems" have "length hashes = 1"
      by (cases hashes) auto
    with False show ?thesis by (subst rootLoop.simps) simp
  qed
qed

lemma pairUp_nth:
  "i < length hs \<Longrightarrow>
   pairUp hs ! (i div 2) =
     (if i mod 2 = 0 then
        (if i + 1 < length hs then hashData (hs ! i @ hs ! (i + 1))
         else hashData (hs ! i @ hs ! i))
      else hashData (hs ! (i - 1) @ hs ! i))"
proof (induction hs arbitrary: i rule: pairUp.induct)
  case (1 a b r)
  show ?case
  proof (cases i)
    case 0
    then show ?thesis by simp
  next
    case (Suc j)
    show ?thesis
    proof (cases j)
      case 0
      with Suc show ?thesis by simp
    next
      case (Suc k)
      with \<open>i = Suc j\<close> have i: "i = Suc (Suc k)" by simp
      with "1.prems" have k: "k < length r" by simp
      have "pairUp (a # b # r) ! (i div 2) = pairUp r ! (k div 2)"
        using i by simp
      also note "1.IH" [OF k]
      finally show ?thesis
        using i by (cases k) auto
    qed
  qed
next
  case (2 a)
  then show ?case by simp
next
  case 3
  then show ?case by simp
qed

lemma verifyLoop_append:
  "verifyLoop c (xs @ ys) = verifyLoop (verifyLoop c xs) ys"
  by (induction xs arbitrary: c) simp_all

lemma proofLoop_acc:
  "proofLoop hs i (acc @ acc') = acc @ proofLoop hs i acc'"
proof (induction hs i acc' arbitrary: acc rule: proofLoop.induct)
  case (1 hashes idx steps)
  show ?case
  proof (cases "length hashes > 1")
    case True
    show ?thesis
      using "1.IH" [OF True, of acc] True
      by (subst (1 2) proofLoop.simps) simp
  next
    case False
    then show ?thesis by (subst (1 2) proofLoop.simps) simp
  qed
qed

lemma verify_proofLoop:
  "i < length hs \<Longrightarrow> verifyLoop (hs ! i) (proofLoop hs i []) = rootLoop hs ! 0"
proof (induction hs arbitrary: i rule: rootLoop.induct)
  case (1 hashes)
  show ?case
  proof (cases "length hashes > 1")
    case True
    let ?s = "if i mod 2 = 0 then
               (if i + 1 < length hashes
                then \<lparr>hash_step = hashes ! (i + 1), position = right\<rparr>
                else \<lparr>hash_step = hashes ! i, position = right\<rparr>)
             else \<lparr>hash_step = hashes ! (i - 1), position = left\<rparr>"
    have half: "i div 2 < length (nextLevel hashes)"
      using "1.prems" by (simp add: length_nextLevel)
    have "proofLoop hashes i [] = proofLoop (nextLevel hashes) (i div 2) ([?s] @ [])"
      using True by (subst proofLoop.simps) simp
    also have "\<dots> = [?s] @ proofLoop (nextLevel hashes) (i div 2) []"
      by (rule proofLoop_acc)
    finally have unfold: "proofLoop hashes i [] = ?s # proofLoop (nextLevel hashes) (i div 2) []"
      by simp
    have up: "verifyLoop (hashes ! i) [?s] = nextLevel hashes ! (i div 2)"
      using pairUp_nth [OF "1.prems"] by (simp add: nextLevel_pairUp)
    have "verifyLoop (hashes ! i) (proofLoop hashes i [])
          = verifyLoop (verifyLoop (hashes ! i) [?s]) (proofLoop (nextLevel hashes) (i div 2) [])"
      unfolding unfold by simp
    also have "\<dots> = rootLoop (nextLevel hashes) ! 0"
      unfolding up by (rule "1.IH" [OF True half])
    also have "\<dots> = rootLoop hashes ! 0"
      using True by (subst (2) rootLoop.simps) simp
    finally show ?thesis .
  next
    case False
    with "1.prems" have "i = 0" by simp
    with False show ?thesis
      by (subst proofLoop.simps, subst rootLoop.simps) simp
  qed
qed

lemma findIndex_lower: "- 1 \<le> findIndex P xs"
  by (induction xs) (auto simp: Let_def)

lemma findIndex_none: "findIndex P xs = - 1 \<longleftrightarrow> (\<forall>x \<in> set xs. \<not> P x)"
proof (induction xs)
  case Nil
  then show ?case by simp
next
  case (Cons x xs)
  from findIndex_lower [of P xs] have "findIndex P xs + 1 \<noteq> - 1" by simp
  with Cons show ?case by (simp add: Let_def)
qed

lemma findIndex_found:
  "findIndex P xs \<noteq> - 1 \<Longrightarrow>
   0 \<le> findIndex P xs \<and> nat (findIndex P xs) < length xs \<and> P (xs ! nat (findIndex P xs))"
proof (induction xs)
  case Nil
  then show ?case by simp
next
  case (Cons x xs)
  show ?case
  proof (cases "P x")
    case True
    then show ?thesis by simp
  next
    case False
    with Cons.prems have ne: "findIndex P xs \<noteq> - 1" by (auto simp: Let_def)
    from Cons.IH [OF ne] False ne show ?thesis
      by (auto simp: Let_def nat_add_distrib)
  qed
qed

text \<open>
  \<^bold>\<open>C1\<close>.  For every sequence of transactions and every transaction \<open>t\<close> in it, the
  proof built for \<open>t\<close> verifies against the root of the sequence:
  \<open>verifyMerkleProof(t.id, getMerkleProof(seq, t.id), getMerkleRoot(seq))\<close> is true.
\<close>

theorem C1_proof_verifies:
  "t \<in> set txs \<Longrightarrow>
   verifyMerkleProof (id_tx t) (getMerkleProof txs (id_tx t)) (getMerkleRoot txs)"
proof -
  assume t: "t \<in> set txs"
  let ?hs = "map id_tx txs"
  let ?i = "findIndex (\<lambda>h. h = id_tx t) ?hs"
  from t have ne: "txs \<noteq> []" by auto
  from t have found: "?i \<noteq> - 1" by (auto simp: findIndex_none)
  from findIndex_found [OF found]
  have lt: "nat ?i < length ?hs" and at: "?hs ! nat ?i = id_tx t" by simp_all
  from verify_proofLoop [OF lt] at
  have "verifyLoop (id_tx t) (proofLoop ?hs (nat ?i) []) = rootLoop ?hs ! 0" by simp
  with found ne show ?thesis
    by (simp add: verifyMerkleProof_def getMerkleProof_def getMerkleRoot_def Let_def)
qed

theorem C1_proof_verifies_witness:
  "exampleTx ''c'' ''k'' \<in> set [exampleTx ''a'' ''k'', exampleTx ''b'' ''k'', exampleTx ''c'' ''k'']
   \<and> verifyMerkleProof ''c''
        (getMerkleProof [exampleTx ''a'' ''k'', exampleTx ''b'' ''k'', exampleTx ''c'' ''k''] ''c'')
        (getMerkleRoot [exampleTx ''a'' ''k'', exampleTx ''b'' ''k'', exampleTx ''c'' ''k''])"
  using C1_proof_verifies
    [of "exampleTx ''c'' ''k''" "[exampleTx ''a'' ''k'', exampleTx ''b'' ''k'', exampleTx ''c'' ''k'']"]
  by (simp add: exampleTx_def)

section \<open>Facts about \<open>hashData\<close>\<close>

lemma length_hex32: "length (hex32 w) = 8"
  by (simp add: hex32_def)

lemma length_hex_state: "length (hex_state st) = 64"
  by (cases st rule: hex_state.cases) (simp add: length_hex32)

lemma length_hashData: "length (hashData s) = 64"
  by (simp add: hashData_def length_hex_state)

lemma hashData_empty:
  "hashData '''' = ''e3b0c44298fc1c149afbf4c8996fb92427ae41e4649b934ca495991b7852b855''"
  by code_simp

lemma hashData_Genesis_Block:
  "hashData ''Genesis Block'' = ''89eb0ac031a63d2421cd05a2fbe41f3ea35f5c3712ca839cbf6b85c4ee07b7a3''"
  by code_simp

lemma hashData_Genesis_Block_neq_empty: "hashData ''Genesis Block'' \<noteq> hashData ''''"
  by (simp add: hashData_empty hashData_Genesis_Block)

lemma rootLoop_single: "rootLoop [a] = [a]"
  by (subst rootLoop.simps) simp

lemma proofLoop_single: "proofLoop [a] i steps = steps"
  by (subst proofLoop.simps) simp

lemma getMerkleRoot_single: "getMerkleRoot [tx] = id_tx tx"
  by (simp add: getMerkleRoot_def rootLoop_single)

lemma getMerkleProof_single: "getMerkleProof [tx] target = []"
  by (simp add: getMerkleProof_def Let_def proofLoop_single)

lemma pairUp_odd:
  "odd (length hs) \<Longrightarrow> pairUp hs = pairUp (butlast hs) @ [hashData (last hs @ last hs)]"
proof (induction hs rule: pairUp.induct)
  case (1 a b r)
  then have "odd (length r)" by simp
  then have "r \<noteq> []" by auto
  with 1 show ?case by simp
qed simp_all

text \<open>
  \<^bold>\<open>C4\<close> (as stated: \<open>getMerkleRoot\<close> of the empty sequence is the hash of a fixed
  non-empty sentinel string, distinct from the hash of the empty string).  The source
  returns \<open>hashData("")\<close> there, so the result is not distinct from the hash of the
  empty string.
\<close>

theorem C4_counterexample: "\<not> (getMerkleRoot [] \<noteq> hashData '''')"
  by (simp add: getMerkleRoot_def)

text \<open>
  \<^bold>\<open>C4\<close>, amended.  \<open>getMerkleRoot\<close> applied to the empty transaction sequence returns
  the hash of the empty string, the fixed constant \<open>e3b0c442\<dots>7852b855\<close>; the text
  \<open>"Genesis Block"\<close> is hashed only for the stored root of the genesis block, and that
  hash is a different constant.
\<close>

theorem C4_empty_root:
  "getMerkleRoot [] = hashData ''''
   \<and> hashData '''' = ''e3b0c44298fc1c149afbf4c8996fb92427ae41e4649b934ca495991b7852b855''
   \<and> getMerkleRoot [] \<noteq> hashData ''Genesis Block''"
  using hashData_Genesis_Block_neq_empty
  by (simp add: getMerkleRoot_def hashData_empty)

text \<open>
  \<^bold>\<open>C6\<close> (as stated: for a block with exactly one transaction with identifier \<open>id\<close>,
  \<open>getMerkleRoot\<close> returns \<open>hash(id ++ id)\<close> and the proof is empty).  The loop of
  \<open>getMerkleRoot\<close> runs only while more than one hash is left, so a single identifier
  is returned as it is; a 64-digit hash cannot equal the identifier \<open>a\<close>.
\<close>

theorem C6_counterexample:
  "\<not> (getMerkleRoot [exampleTx ''a'' ''k''] = hashData (''a'' @ ''a'')
      \<and> getMerkleProof [exampleTx ''a'' ''k''] ''a'' = [])"
proof
  assume "getMerkleRoot [exampleTx ''a'' ''k''] = hashData (''a'' @ ''a'')
      \<and> getMerkleProof [exampleTx ''a'' ''k''] ''a'' = []"
  then have "''a'' = hashData (''a'' @ ''a'')"
    by (simp add: getMerkleRoot_single exampleTx_def)
  then have "length ''a'' = length (hashData (''a'' @ ''a''))" by simp
  then show False by (simp only: length_hashData) simp
qed

text \<open>
  \<^bold>\<open>C6\<close>, amended.  For a block containing exactly one transaction with identifier
  \<open>id\<close>, \<open>getMerkleRoot\<close> returns \<open>id\<close> itself, and \<open>getMerkleProof\<close> for that
  transaction returns the empty proof sequence.
\<close>

theorem C6_single_transaction:
  "getMerkleRoot [tx] = id_tx tx \<and> getMerkleProof [tx] (id_tx tx) = []"
  by (simp add: getMerkleRoot_single getMerkleProof_single)

text \<open>
  \<^bold>\<open>C7\<close>.  In the pairwise reduction of \<open>getMerkleRoot\<close>, a level with an odd number
  of elements has its final, unpaired element combined with itself as \<open>hash(a ++ a)\<close>
  (the elements before it are paired as usual); the reduction is applied to every level
  of more than one element; and for a 3-element sequence \<open>[a, b, c]\<close> the intermediate
  level is \<open>[hash(a ++ b), hash(c ++ c)]\<close> and the root is
  \<open>hash(hash(a ++ b) ++ hash(c ++ c))\<close>.
\<close>

theorem C7_odd_level_duplicates_last:
  "(odd (length hs) \<longrightarrow>
      nextLevel hs = nextLevel (butlast hs) @ [hashData (last hs @ last hs)])
   \<and> (1 < length hs \<longrightarrow> rootLoop hs = rootLoop (nextLevel hs))
   \<and> nextLevel [a, b, c] = [hashData (a @ b), hashData (c @ c)]
   \<and> getMerkleRoot [ta, tb, tc] =
       hashData (hashData (id_tx ta @ id_tx tb) @ hashData (id_tx tc @ id_tx tc))"
proof (intro conjI impI)
  assume "odd (length hs)"
  then show "nextLevel hs = nextLevel (butlast hs) @ [hashData (last hs @ last hs)]"
    by (simp add: nextLevel_pairUp pairUp_odd)
next
  assume "1 < length hs"
  then show "rootLoop hs = rootLoop (nextLevel hs)"
    by (subst rootLoop.simps) simp
next
  show "nextLevel [a, b, c] = [hashData (a @ b), hashData (c @ c)]"
    by (simp add: nextLevel_pairUp)
next
  have "rootLoop [id_tx ta, id_tx tb, id_tx tc]
        = rootLoop [hashData (id_tx ta @ id_tx tb), hashData (id_tx tc @ id_tx tc)]"
    by (subst rootLoop.simps) (simp add: nextLevel_pairUp)
  also have "\<dots> = rootLoop [hashData (hashData (id_tx ta @ id_tx tb) @ hashData (id_tx tc @ id_tx tc))]"
    by (subst rootLoop.simps) (simp add: nextLevel_pairUp)
  finally show "getMerkleRoot [ta, tb, tc] =
       hashData (hashData (id_tx ta @ id_tx tb) @ hashData (id_tx tc @ id_tx tc))"
    by (simp add: getMerkleRoot_def rootLoop_single)
qed

theorem C7_odd_level_duplicates_last_witness:
  "odd (length [''a'', ''b'', ''c''])
   \<and> 1 < length [''a'', ''b'', ''c'']
   \<and> nextLevel [''a'', ''b'', ''c''] = nextLevel [''a'', ''b''] @ [hashData ''cc'']
   \<and> rootLoop [''a'', ''b'', ''c''] = rootLoop (nextLevel [''a'', ''b'', ''c''])"
proof -
  have odd3: "odd (length [''a'', ''b'', ''c''])" and more: "1 < length [''a'', ''b'', ''c'']"
    by simp_all
  from C7_odd_level_duplicates_last [of "[''a'', ''b'', ''c'']"] odd3 more
  have "nextLevel [''a'', ''b'', ''c'']
          = nextLevel (butlast [''a'', ''b'', ''c'']) @ [hashData (last [''a'', ''b'', ''c''] @ last [''a'', ''b'', ''c''])]
        \<and> rootLoop [''a'', ''b'', ''c''] = rootLoop (nextLevel [''a'', ''b'', ''c''])"
    by blast
  with odd3 more show ?thesis by simp
qed

text \<open>
  \<^bold>\<open>C10\<close>.  With the empty proof, \<open>verifyMerkleProof(leaf, [], root)\<close> is true iff
  \<open>leaf\<close> equals \<open>root\<close>; so any string verifies against itself with the empty proof,
  and for a target that is not an identifier of the block \<open>getMerkleProof\<close> returns the
  empty proof, which verifies against the block's root only if the target equals that
  root.
\<close>

theorem C10_empty_proof:
  "(verifyMerkleProof leaf [] root \<longleftrightarrow> leaf = root)
   \<and> verifyMerkleProof s [] s
   \<and> (target \<notin> set (map id_tx txs) \<longrightarrow>
        getMerkleProof txs target = []
        \<and> (verifyMerkleProof target (getMerkleProof txs target) (getMerkleRoot txs)
             \<longleftrightarrow> target = getMerkleRoot txs))"
proof -
  have "target \<notin> set (map id_tx txs) \<Longrightarrow> getMerkleProof txs target = []"
    by (auto simp: getMerkleProof_def Let_def findIndex_none)
  then show ?thesis
    by (auto simp: verifyMerkleProof_def)
qed

theorem C10_empty_proof_witness:
  "''z'' \<notin> set (map id_tx [exampleTx ''a'' ''k'', exampleTx ''b'' ''k''])
   \<and> getMerkleProof [exampleTx ''a'' ''k'', exampleTx ''b'' ''k''] ''z'' = []
   \<and> (verifyMerkleProof ''z'' (getMerkleProof [exampleTx ''a'' ''k'', exampleTx ''b'' ''k''] ''z'')
         (getMerkleRoot [exampleTx ''a'' ''k'', exampleTx ''b'' ''k''])
       \<longleftrightarrow> ''z'' = getMerkleRoot [exampleTx ''a'' ''k'', exampleTx ''b'' ''k''])"
  using C10_empty_proof [of _ _ _ "''z''" "[exampleTx ''a'' ''k'', exampleTx ''b'' ''k'']"]
  by (simp add: exampleTx_def)

section \<open>Properties of the ledger\<close>

lemma showNat_0: "showNat 0 = ''0''"
  by (subst showNat.simps) simp

lemma numberToString_0: "numberToString 0 = ''0''"
  by (simp add: numberToString_def showNat_0)

lemma genesis_hash:
  "hash (createGenesisBlock now) = calculateBlockHash (createGenesisBlock now)"
  by (simp add: createGenesisBlock_def calculateBlockHash_def numberToString_0)

lemma validLoop_iff:
  "validLoop blocks i \<longleftrightarrow>
     (\<forall>j. i \<le> j \<and> j < length blocks \<longrightarrow>
        hash (blocks ! j) = calculateBlockHash (blocks ! j)
        \<and> previousHash (header (blocks ! j)) = hash (blocks ! (j - 1))
        \<and> merkleRoot (header (blocks ! j)) = getMerkleRoot (transactions (blocks ! j)))"
proof (induction blocks i rule: validLoop.induct)
  case (1 blocks i)
  let ?ok = "\<lambda>j. hash (blocks ! j) = calculateBlockHash (blocks ! j)
        \<and> previousHash (header (blocks ! j)) = hash (blocks ! (j - 1))
        \<and> merkleRoot (header (blocks ! j)) = getMerkleRoot (transactions (blocks ! j))"
  show ?case
  proof (cases "i < length blocks")
    case False
    then show ?thesis by (subst validLoop.simps) auto
  next
    case inside: True
    show ?thesis
    proof (cases "?ok i")
      case False
      with inside have "\<not> validLoop blocks i"
        by (subst validLoop.simps) (auto simp: Let_def)
      moreover from False inside have "\<not> (\<forall>j. i \<le> j \<and> j < length blocks \<longrightarrow> ?ok j)"
        by blast
      ultimately show ?thesis by blast
    next
      case True
      with inside have "validLoop blocks i = validLoop blocks (i + 1)"
        by (subst validLoop.simps) (simp add: Let_def)
      also have "\<dots> \<longleftrightarrow> (\<forall>j. i + 1 \<le> j \<and> j < length blocks \<longrightarrow> ?ok j)"
        using "1.IH" [OF inside refl refl] True by simp
      also have "\<dots> \<longleftrightarrow> (\<forall>j. i \<le> j \<and> j < length blocks \<longrightarrow> ?ok j)"
      proof (intro iffI allI impI)
        fix j
        assume rest: "\<forall>j. i + 1 \<le> j \<and> j < length blocks \<longrightarrow> ?ok j"
          and j: "i \<le> j \<and> j < length blocks"
        show "?ok j"
        proof (cases "j = i")
          case True
          with \<open>?ok i\<close> show ?thesis by simp
        next
          case False
          with j have "i + 1 \<le> j \<and> j < length blocks" by simp
          with rest show ?thesis by blast
        qed
      next
        fix j
        assume "\<forall>j. i \<le> j \<and> j < length blocks \<longrightarrow> ?ok j"
          and "i + 1 \<le> j \<and> j < length blocks"
        then show "?ok j" by simp
      qed
      finally show ?thesis .
    qed
  qed
qed

lemma getLatestBlock_last: "chain L \<noteq> [] \<Longrightarrow> getLatestBlock L = Some (last (chain L))"
  by (simp add: getLatestBlock_def last_conv_nth)

lemma mine_success:
  "chain L \<noteq> [] \<Longrightarrow>
   minePendingTransactions now rnd L =
     Inr (\<lparr>header = \<lparr>index = int (length (chain L)), previousHash = hash (last (chain L)),
                      timestamp = now, merkleRoot = getMerkleRoot (pendingTransactions L),
                      nonce = rnd\<rparr>,
           transactions = pendingTransactions L,
           hash = hashData (numberToString (int (length (chain L))) @ hash (last (chain L))
                   @ numberToString now @ getMerkleRoot (pendingTransactions L)
                   @ numberToString rnd)\<rparr>,
          L\<lparr>chain := chain L @
                [\<lparr>header = \<lparr>index = int (length (chain L)), previousHash = hash (last (chain L)),
                      timestamp = now, merkleRoot = getMerkleRoot (pendingTransactions L),
                      nonce = rnd\<rparr>,
                  transactions = pendingTransactions L,
                  hash = hashData (numberToString (int (length (chain L))) @ hash (last (chain L))
                   @ numberToString now @ getMerkleRoot (pendingTransactions L)
                   @ numberToString rnd)\<rparr>],
            pendingTransactions := []\<rparr>)"
  by (simp add: minePendingTransactions_def getLatestBlock_last Let_def calculateBlockHash_def)

lemma mine_failure: "chain L = [] \<Longrightarrow> minePendingTransactions now rnd L = Inl TypeError"
  by (simp add: minePendingTransactions_def getLatestBlock_def)

lemma step_chain_nonempty:
  "chain L \<noteq> [] \<Longrightarrow> \<exists>L'. step c L = Inr L' \<and> chain L' \<noteq> []"
proof (cases c)
  case (AddTransaction tx)
  assume "chain L \<noteq> []"
  with AddTransaction show ?thesis by (simp add: addTransaction_def)
next
  case (Mine now rnd)
  assume "chain L \<noteq> []"
  with Mine show ?thesis by (simp add: mine_success)
next
  case (RevokeKey k)
  assume "chain L \<noteq> []"
  with RevokeKey show ?thesis by (simp add: revokeKey_def)
qed

lemma run_chain_nonempty:
  "chain L \<noteq> [] \<Longrightarrow> \<exists>L'. run calls L = Inr L' \<and> chain L' \<noteq> []"
proof (induction calls arbitrary: L)
  case Nil
  then show ?case by simp
next
  case (Cons c calls)
  from step_chain_nonempty [OF Cons.prems, of c]
  obtain L1 where s: "step c L = Inr L1" and ne: "chain L1 \<noteq> []" by blast
  from Cons.IH [OF ne] s show ?case by simp
qed

lemma run_total: "\<exists>L. run calls (newBlockchain now) = Inr L \<and> chain L \<noteq> []"
  by (rule run_chain_nonempty) (simp add: newBlockchain_def)

lemma step_revokedKeys:
  "step c L = Inr L' \<Longrightarrow>
   (k |\<in>| revokedKeys L' \<longleftrightarrow> k |\<in>| revokedKeys L \<or> c = RevokeKey k)"
proof (cases c)
  case (AddTransaction tx)
  assume "step c L = Inr L'"
  with AddTransaction show ?thesis by (auto simp: addTransaction_def split: if_splits)
next
  case (Mine now rnd)
  assume "step c L = Inr L'"
  with Mine show ?thesis
    by (cases "chain L = []") (auto simp: mine_success mine_failure)
next
  case (RevokeKey k')
  assume "step c L = Inr L'"
  with RevokeKey show ?thesis by (auto simp: revokeKey_def)
qed

lemma run_revokedKeys:
  "run calls L = Inr L' \<Longrightarrow>
   (k |\<in>| revokedKeys L' \<longleftrightarrow> k |\<in>| revokedKeys L \<or> RevokeKey k \<in> set calls)"
proof (induction calls arbitrary: L)
  case Nil
  then show ?case by simp
next
  case (Cons c calls)
  from Cons.prems obtain L1 where s: "step c L = Inr L1" and r: "run calls L1 = Inr L'"
    by (auto split: sum.splits)
  from Cons.IH [OF r] step_revokedKeys [OF s, of k] show ?case by auto
qed

lemma exampleLedger_run: "run exampleCalls (newBlockchain 1700000000000) = Inr exampleLedger"
  using run_total [of exampleCalls 1700000000000] by (auto simp: exampleLedger_def)

lemma exampleLedger_eq:
  "exampleLedger =
     \<lparr>chain = [createGenesisBlock 1700000000000,
               \<lparr>header = \<lparr>index = 1, previousHash = hash (createGenesisBlock 1700000000000),
                          timestamp = 1700000000060, merkleRoot = ''a'', nonce = 4242\<rparr>,
                transactions = [exampleTx ''a'' ''k''],
                hash = hashData (numberToString 1 @ hash (createGenesisBlock 1700000000000)
                         @ numberToString 1700000000060 @ ''a'' @ numberToString 4242)\<rparr>],
      pendingTransactions = [],
      revokedKeys = {|''bad''|}\<rparr>"
  by (simp add: exampleLedger_def exampleCalls_def newBlockchain_def revokeKey_def
      addTransaction_def mine_success getMerkleRoot_single exampleTx_def)

lemma run_appends_blocks:
  "run calls L0 = Inr L \<Longrightarrow> chain L0 \<noteq> [] \<Longrightarrow>
   \<exists>bs. chain L = chain L0 @ bs
        \<and> (\<forall>b \<in> set bs. hash b = calculateBlockHash b
                         \<and> merkleRoot (header b) = getMerkleRoot (transactions b))"
proof (induction calls arbitrary: L0)
  case Nil
  then show ?case by simp
next
  case (Cons c calls)
  from Cons.prems obtain L1 where s: "step c L0 = Inr L1" and r: "run calls L1 = Inr L"
    by (auto split: sum.splits)
  have first: "\<exists>bs. chain L1 = chain L0 @ bs
        \<and> (\<forall>b \<in> set bs. hash b = calculateBlockHash b
                         \<and> merkleRoot (header b) = getMerkleRoot (transactions b))"
  proof (cases c)
    case (AddTransaction tx)
    with s show ?thesis by (auto simp: addTransaction_def)
  next
    case (Mine now rnd)
    with s Cons.prems(2) show ?thesis
      by (auto simp: mine_success calculateBlockHash_def)
  next
    case (RevokeKey k)
    with s show ?thesis by (auto simp: revokeKey_def)
  qed
  then obtain bs1 where b1: "chain L1 = chain L0 @ bs1"
    and ok1: "\<forall>b \<in> set bs1. hash b = calculateBlockHash b
                         \<and> merkleRoot (header b) = getMerkleRoot (transactions b)"
    by blast
  from b1 Cons.prems(2) have "chain L1 \<noteq> []" by simp
  from Cons.IH [OF r this] obtain bs2 where b2: "chain L = chain L1 @ bs2"
    and ok2: "\<forall>b \<in> set bs2. hash b = calculateBlockHash b
                         \<and> merkleRoot (header b) = getMerkleRoot (transactions b)"
    by blast
  from b1 b2 have "chain L = chain L0 @ (bs1 @ bs2)" by simp
  moreover from ok1 ok2 have "\<forall>b \<in> set (bs1 @ bs2). hash b = calculateBlockHash b
                         \<and> merkleRoot (header b) = getMerkleRoot (transactions b)"
    by auto
  ultimately show ?case by blast
qed

text \<open>
  \<^bold>\<open>C2\<close>.  \<open>isChainValid\<close> is true on a freshly constructed ledger; in general it is
  true iff every block at index 1 or greater has its stored hash equal to the recomputed
  block hash, its stored \<open>previousHash\<close> equal to the stored hash of the block before
  it, and its stored \<open>merkleRoot\<close> equal to the Merkle root recomputed over its
  transactions, so that a single failure makes the result false; the genesis block is
  never re-checked: replacing it by any block with the same stored hash leaves the
  result as it is.
\<close>

theorem C2_isChainValid:
  "isChainValid (newBlockchain now)
   \<and> (isChainValid L \<longleftrightarrow>
        (\<forall>i. 1 \<le> i \<and> i < length (chain L) \<longrightarrow>
           hash (chain L ! i) = calculateBlockHash (chain L ! i)
           \<and> previousHash (header (chain L ! i)) = hash (chain L ! (i - 1))
           \<and> merkleRoot (header (chain L ! i)) = getMerkleRoot (transactions (chain L ! i))))
   \<and> (hash g' = hash g \<longrightarrow>
        isChainValid (L\<lparr>chain := g' # rest\<rparr>) = isChainValid (L\<lparr>chain := g # rest\<rparr>))"
proof (intro conjI impI)
  show "isChainValid (newBlockchain now)"
    by (simp add: isChainValid_def validLoop_iff newBlockchain_def)
next
  show "isChainValid L \<longleftrightarrow>
        (\<forall>i. 1 \<le> i \<and> i < length (chain L) \<longrightarrow>
           hash (chain L ! i) = calculateBlockHash (chain L ! i)
           \<and> previousHash (header (chain L ! i)) = hash (chain L ! (i - 1))
           \<and> merkleRoot (header (chain L ! i)) = getMerkleRoot (transactions (chain L ! i)))"
    unfolding isChainValid_def by (rule validLoop_iff)
next
  assume same: "hash g' = hash g"
  have "\<And>j. 1 \<le> j \<Longrightarrow> (g' # rest) ! j = (g # rest) ! j"
    by (simp add: nth_Cons split: nat.splits)
  moreover have "\<And>j. 1 \<le> j \<Longrightarrow> hash ((g' # rest) ! (j - 1)) = hash ((g # rest) ! (j - 1))"
    using same by (simp add: nth_Cons split: nat.splits)
  ultimately show "isChainValid (L\<lparr>chain := g' # rest\<rparr>) = isChainValid (L\<lparr>chain := g # rest\<rparr>)"
    by (simp add: isChainValid_def validLoop_iff)
qed

theorem C2_isChainValid_witness:
  "(1::nat) \<le> 1 \<and> 1 < length (chain exampleLedger)
   \<and> isChainValid exampleLedger
   \<and> hash ((createGenesisBlock 1700000000000)\<lparr>transactions := [exampleTx ''z'' ''k'']\<rparr>)
       = hash (createGenesisBlock 1700000000000)
   \<and> isChainValid (exampleLedger\<lparr>chain :=
         (createGenesisBlock 1700000000000)\<lparr>transactions := [exampleTx ''z'' ''k'']\<rparr>
           # tl (chain exampleLedger)\<rparr>)"
proof -
  let ?g = "createGenesisBlock 1700000000000"
  let ?g' = "?g\<lparr>transactions := [exampleTx ''z'' ''k'']\<rparr>"
  have len: "length (chain exampleLedger) = 2"
    by (simp add: exampleLedger_eq)
  have checks: "\<forall>i. 1 \<le> i \<and> i < length (chain exampleLedger) \<longrightarrow>
           hash (chain exampleLedger ! i) = calculateBlockHash (chain exampleLedger ! i)
           \<and> previousHash (header (chain exampleLedger ! i)) = hash (chain exampleLedger ! (i - 1))
           \<and> merkleRoot (header (chain exampleLedger ! i))
               = getMerkleRoot (transactions (chain exampleLedger ! i))"
  proof (intro allI impI)
    fix i :: nat
    assume "1 \<le> i \<and> i < length (chain exampleLedger)"
    with len have "i = 1" by simp
    then show "hash (chain exampleLedger ! i) = calculateBlockHash (chain exampleLedger ! i)
           \<and> previousHash (header (chain exampleLedger ! i)) = hash (chain exampleLedger ! (i - 1))
           \<and> merkleRoot (header (chain exampleLedger ! i))
               = getMerkleRoot (transactions (chain exampleLedger ! i))"
      by (simp add: exampleLedger_eq calculateBlockHash_def getMerkleRoot_single exampleTx_def)
  qed
  have same: "hash ?g' = hash ?g" by simp
  have split: "exampleLedger\<lparr>chain := ?g # tl (chain exampleLedger)\<rparr> = exampleLedger"
    by (simp add: exampleLedger_eq)
  from C2_isChainValid [of 1700000000000 exampleLedger ?g' ?g "tl (chain exampleLedger)"]
    checks same split len
  show ?thesis by simp
qed

text \<open>
  \<^bold>\<open>C3\<close>.  For every ledger state, \<open>minePendingTransactions\<close> succeeds, also on an
  empty pool, and afterwards: the pool is empty, the chain is one block longer, the new
  block's transactions are the old pool in order, its \<open>previousHash\<close> is the stored hash
  of the old last block, its \<open>index\<close> is the old chain length, its \<open>merkleRoot\<close> is
  \<open>getMerkleRoot\<close> of the old pool, and its \<open>hash\<close> is \<open>calculateBlockHash\<close> of the
  block.  A ledger state has a chain that starts with the genesis block: every state
  reached from the constructor has a non-empty chain (first part), and on a non-empty
  chain the call returns the block and the new state (second part).
\<close>

theorem C3_minePendingTransactions:
  "(run calls (newBlockchain t0) = Inr L \<longrightarrow> chain L \<noteq> [])
   \<and> (chain L \<noteq> [] \<longrightarrow>
        (\<exists>block L'.
           minePendingTransactions now rnd L = Inr (block, L')
           \<and> pendingTransactions L' = []
           \<and> chain L' = chain L @ [block]
           \<and> length (chain L') = length (chain L) + 1
           \<and> revokedKeys L' = revokedKeys L
           \<and> transactions block = pendingTransactions L
           \<and> previousHash (header block) = hash (last (chain L))
           \<and> index (header block) = int (length (chain L))
           \<and> merkleRoot (header block) = getMerkleRoot (pendingTransactions L)
           \<and> timestamp (header block) = now
           \<and> nonce (header block) = rnd
           \<and> hash block = calculateBlockHash block))"
proof (intro conjI impI)
  assume "run calls (newBlockchain t0) = Inr L"
  with run_total [of calls t0] show "chain L \<noteq> []" by auto
next
  assume "chain L \<noteq> []"
  then show "\<exists>block L'.
           minePendingTransactions now rnd L = Inr (block, L')
           \<and> pendingTransactions L' = []
           \<and> chain L' = chain L @ [block]
           \<and> length (chain L') = length (chain L) + 1
           \<and> revokedKeys L' = revokedKeys L
           \<and> transactions block = pendingTransactions L
           \<and> previousHash (header block) = hash (last (chain L))
           \<and> index (header block) = int (length (chain L))
           \<and> merkleRoot (header block) = getMerkleRoot (pendingTransactions L)
           \<and> timestamp (header block) = now
           \<and> nonce (header block) = rnd
           \<and> hash block = calculateBlockHash block"
    by (simp add: mine_success calculateBlockHash_def)
qed

theorem C3_minePendingTransactions_witness:
  "run exampleCalls (newBlockchain 1700000000000) = Inr exampleLedger
   \<and> chain exampleLedger \<noteq> []
   \<and> (\<exists>block L'.
         minePendingTransactions 1700000000120 7 exampleLedger = Inr (block, L')
         \<and> pendingTransactions L' = []
         \<and> chain L' = chain exampleLedger @ [block]
         \<and> previousHash (header block) = hash (last (chain exampleLedger))
         \<and> index (header block) = 2
         \<and> hash block = calculateBlockHash block)"
proof -
  have len: "length (chain exampleLedger) = 2"
    by (simp add: exampleLedger_eq)
  from C3_minePendingTransactions
    [of exampleCalls 1700000000000 exampleLedger 1700000000120 7] exampleLedger_run
  have ne: "chain exampleLedger \<noteq> []"
    and ex: "chain exampleLedger \<noteq> [] \<longrightarrow>
        (\<exists>block L'.
           minePendingTransactions 1700000000120 7 exampleLedger = Inr (block, L')
           \<and> pendingTransactions L' = []
           \<and> chain L' = chain exampleLedger @ [block]
           \<and> length (chain L') = length (chain exampleLedger) + 1
           \<and> revokedKeys L' = revokedKeys exampleLedger
           \<and> transactions block = pendingTransactions exampleLedger
           \<and> previousHash (header block) = hash (last (chain exampleLedger))
           \<and> index (header block) = int (length (chain exampleLedger))
           \<and> merkleRoot (header block) = getMerkleRoot (pendingTransactions exampleLedger)
           \<and> timestamp (header block) = 1700000000120
           \<and> nonce (header block) = 7
           \<and> hash block = calculateBlockHash block)"
    by blast+
  from ex ne len exampleLedger_run show ?thesis by auto
qed

text \<open>
  \<^bold>\<open>C5\<close>.  For every ledger state and every transaction \<open>tx\<close>, \<open>addTransaction(tx)\<close>
  returns false iff \<open>tx.signerPublicKey\<close> is in the revoked set, whatever the pool
  holds; on rejection the state (pool, chain, revoked set) is unchanged; on acceptance
  the result is true and exactly \<open>tx\<close> is appended at the end of the pool, nothing else
  changing.  In a state reached from the constructor by a sequence of calls, the revoked
  set holds exactly the keys that were passed to \<open>revokeKey\<close> in that sequence.
\<close>

theorem C5_addTransaction:
  "(fst (addTransaction tx L) = False \<longleftrightarrow> signerPublicKey tx |\<in>| revokedKeys L)
   \<and> (signerPublicKey tx |\<in>| revokedKeys L \<longrightarrow> addTransaction tx L = (False, L))
   \<and> (signerPublicKey tx |\<notin>| revokedKeys L \<longrightarrow>
        addTransaction tx L = (True, L\<lparr>pendingTransactions := pendingTransactions L @ [tx]\<rparr>))
   \<and> (run calls (newBlockchain now) = Inr L \<longrightarrow>
        (k |\<in>| revokedKeys L \<longleftrightarrow> RevokeKey k \<in> set calls))"
proof -
  have "run calls (newBlockchain now) = Inr L \<Longrightarrow>
        (k |\<in>| revokedKeys L \<longleftrightarrow> RevokeKey k \<in> set calls)"
    using run_revokedKeys [of calls "newBlockchain now" L k]
    by (simp add: newBlockchain_def)
  then show ?thesis by (auto simp: addTransaction_def)
qed

theorem C5_addTransaction_witness:
  "signerPublicKey (exampleTx ''b'' ''bad'') |\<in>| revokedKeys exampleLedger
   \<and> addTransaction (exampleTx ''b'' ''bad'') exampleLedger = (False, exampleLedger)
   \<and> signerPublicKey (exampleTx ''c'' ''k'') |\<notin>| revokedKeys exampleLedger
   \<and> addTransaction (exampleTx ''c'' ''k'') exampleLedger =
       (True, exampleLedger\<lparr>pendingTransactions :=
                pendingTransactions exampleLedger @ [exampleTx ''c'' ''k'']\<rparr>)
   \<and> run exampleCalls (newBlockchain 1700000000000) = Inr exampleLedger
   \<and> RevokeKey ''bad'' \<in> set exampleCalls"
proof -
  have bad: "signerPublicKey (exampleTx ''b'' ''bad'') |\<in>| revokedKeys exampleLedger"
    and good: "signerPublicKey (exampleTx ''c'' ''k'') |\<notin>| revokedKeys exampleLedger"
    by (simp_all add: exampleLedger_eq exampleTx_def)
  from C5_addTransaction
    [of "exampleTx ''b'' ''bad''" exampleLedger exampleCalls 1700000000000 "''bad''"]
    bad exampleLedger_run
  have rejected: "addTransaction (exampleTx ''b'' ''bad'') exampleLedger = (False, exampleLedger)"
    and history: "''bad'' |\<in>| revokedKeys exampleLedger \<longleftrightarrow> RevokeKey ''bad'' \<in> set exampleCalls"
    by blast+
  from C5_addTransaction
    [of "exampleTx ''c'' ''k''" exampleLedger exampleCalls 1700000000000 "''bad''"] good
  have accepted: "addTransaction (exampleTx ''c'' ''k'') exampleLedger =
       (True, exampleLedger\<lparr>pendingTransactions :=
                pendingTransactions exampleLedger @ [exampleTx ''c'' ''k'']\<rparr>)"
    by blast
  from bad have "''bad'' |\<in>| revokedKeys exampleLedger" by (simp add: exampleTx_def)
  with history have "RevokeKey ''bad'' \<in> set exampleCalls" by blast
  with bad good rejected accepted exampleLedger_run show ?thesis by blast
qed

text \<open>
  \<^bold>\<open>C8\<close> (as stated: every block of every reachable state, the genesis block included,
  has \<open>hash = calculateBlockHash(block)\<close> and
  \<open>merkleRoot = getMerkleRoot(transactions)\<close>).  The genesis block of a fresh ledger
  stores \<open>hashData("Genesis Block")\<close> as its root, while \<open>getMerkleRoot\<close> of its empty
  transaction list is \<open>hashData("")\<close>.
\<close>

theorem C8_counterexample:
  "\<not> (\<forall>b \<in> set (chain (newBlockchain 0)).
        hash b = calculateBlockHash b
        \<and> merkleRoot (header b) = getMerkleRoot (transactions b))"
  using hashData_Genesis_Block_neq_empty
  by (simp add: newBlockchain_def createGenesisBlock_def getMerkleRoot_def)

text \<open>
  \<^bold>\<open>C8\<close>, amended.  Every block in every reachable ledger state, the genesis block
  included, has its stored hash equal to \<open>calculateBlockHash\<close> of the block; every
  block other than the genesis block has its stored \<open>merkleRoot\<close> equal to
  \<open>getMerkleRoot\<close> of its transactions; the genesis block has no transactions and
  stores \<open>hashData("Genesis Block")\<close> as its \<open>merkleRoot\<close>.
\<close>

theorem C8_blocks_recomputable:
  "run calls (newBlockchain now) = Inr L \<Longrightarrow> i < length (chain L) \<Longrightarrow>
   hash (chain L ! i) = calculateBlockHash (chain L ! i)
   \<and> (0 < i \<longrightarrow> merkleRoot (header (chain L ! i)) = getMerkleRoot (transactions (chain L ! i)))
   \<and> (i = 0 \<longrightarrow> chain L ! i = createGenesisBlock now
                 \<and> transactions (chain L ! i) = []
                 \<and> merkleRoot (header (chain L ! i)) = hashData ''Genesis Block'')"
proof -
  assume r: "run calls (newBlockchain now) = Inr L" and i: "i < length (chain L)"
  from run_appends_blocks [OF r]
  obtain bs where c: "chain L = createGenesisBlock now # bs"
    and ok: "\<forall>b \<in> set bs. hash b = calculateBlockHash b
                         \<and> merkleRoot (header b) = getMerkleRoot (transactions b)"
    by (auto simp: newBlockchain_def)
  show ?thesis
  proof (cases i)
    case 0
    with c show ?thesis
      by (simp add: genesis_hash) (simp add: createGenesisBlock_def)
  next
    case (Suc j)
    with i c have "bs ! j \<in> set bs" by simp
    with ok Suc c show ?thesis by simp
  qed
qed

theorem C8_blocks_recomputable_witness:
  "run exampleCalls (newBlockchain 1700000000000) = Inr exampleLedger
   \<and> (1::nat) < length (chain exampleLedger)
   \<and> hash (chain exampleLedger ! 1) = calculateBlockHash (chain exampleLedger ! 1)
   \<and> merkleRoot (header (chain exampleLedger ! 1))
       = getMerkleRoot (transactions (chain exampleLedger ! 1))
   \<and> (0::nat) < length (chain exampleLedger)
   \<and> hash (chain exampleLedger ! 0) = calculateBlockHash (chain exampleLedger ! 0)
   \<and> chain exampleLedger ! 0 = createGenesisBlock 1700000000000
   \<and> merkleRoot (header (chain exampleLedger ! 0)) = hashData ''Genesis Block''"
proof -
  have one: "(1::nat) < length (chain exampleLedger)"
    and zero: "(0::nat) < length (chain exampleLedger)"
    by (simp_all add: exampleLedger_eq)
  from C8_blocks_recomputable [OF exampleLedger_run one]
    C8_blocks_recomputable [OF exampleLedger_run zero] exampleLedger_run one zero
  show ?thesis by auto
qed

text \<open>
  \<^bold>\<open>C9\<close>.  For every ledger state and every public key \<open>k\<close>, \<open>revokeKey(k)\<close> adds
  \<open>k\<close> to the revoked set and leaves the chain and the pending pool as they are; if
  \<open>k\<close> is already revoked the call changes nothing, and the size of the revoked set
  does not grow.
\<close>

theorem C9_revokeKey:
  "revokedKeys (revokeKey k L) = finsert k (revokedKeys L)
   \<and> chain (revokeKey k L) = chain L
   \<and> pendingTransactions (revokeKey k L) = pendingTransactions L
   \<and> (k |\<in>| revokedKeys L \<longrightarrow>
        revokeKey k L = L \<and> fcard (revokedKeys (revokeKey k L)) = fcard (revokedKeys L))"
  by (auto simp: revokeKey_def finsert_absorb)

theorem C9_revokeKey_witness:
  "''bad'' |\<in>| revokedKeys exampleLedger
   \<and> revokeKey ''bad'' exampleLedger = exampleLedger
   \<and> fcard (revokedKeys (revokeKey ''bad'' exampleLedger)) = fcard (revokedKeys exampleLedger)
   \<and> revokedKeys (revokeKey ''new'' exampleLedger) = {|''new'', ''bad''|}"
proof -
  have present: "''bad'' |\<in>| revokedKeys exampleLedger"
    by (simp add: exampleLedger_eq)
  have keys: "revokedKeys exampleLedger = {|''bad''|}"
    by (simp add: exampleLedger_eq)
  from C9_revokeKey [of "''bad''" exampleLedger] C9_revokeKey [of "''new''" exampleLedger]
    present keys
  show ?thesis by simp
qed

end
